theory Spec2Isabelle
  imports
    Main
    "HOL-Library.Word"
    "HOL-Library.Char_ord"
    "HOL-Library.List_Lexorder"
    "HOL-Library.Multiset"
    "HOL-Library.Sublist"
begin

section \<open>Character classification\<close>

text \<open>
  The program never calls \<^verbatim>\<open>setlocale\<close>, so \<^verbatim>\<open>isspace\<close>, \<^verbatim>\<open>isalpha\<close> and
  \<^verbatim>\<open>tolower\<close> work in the "C" locale: white space is the blank and the five control
  characters 9 to 13, letters are the 52 ASCII letters, and bytes from 128 on are neither
  (where \<^verbatim>\<open>char\<close> is signed the C standard leaves the call on such a byte open; the
  common libraries answer as here).
\<close>

definition isspace :: "char \<Rightarrow> bool" where
  "isspace c = (let n = (of_char c :: nat) in n = 32 \<or> (9 \<le> n \<and> n \<le> 13))"

definition isupper :: "char \<Rightarrow> bool" where
  "isupper c = (let n = (of_char c :: nat) in 65 \<le> n \<and> n \<le> 90)"

definition islower :: "char \<Rightarrow> bool" where
  "islower c = (let n = (of_char c :: nat) in 97 \<le> n \<and> n \<le> 122)"

definition isalpha :: "char \<Rightarrow> bool" where
  "isalpha c = (isupper c \<or> islower c)"

definition tolower :: "char \<Rightarrow> char" where
  "tolower c = (if isupper c then char_of (of_char c + (32 :: nat)) else c)"

section \<open>validate\<close>

text \<open>
  \<^verbatim>\<open>validate(std::string &word)\<close> works on the caller's string through the reference.
  The model returns the flag together with the string as the call leaves it.

  The first loop pops white space off the back, the second erases it from the front.
\<close>

function trim_back :: "string \<Rightarrow> string" where
  "trim_back word =
     (if word \<noteq> [] \<and> isspace (last word) then trim_back (butlast word) else word)"
  by pat_completeness auto
termination
  by (relation "measure length") auto

declare trim_back.simps [simp del]

fun trim_front :: "string \<Rightarrow> string" where
  "trim_front [] = []"
| "trim_front (c # cs) = (if isspace c then trim_front cs else c # cs)"

text \<open>
  The \<^verbatim>\<open>for (char &i : word)\<close> loop: \<open>seen\<close> holds the characters already visited
  (and lowered in place), the second list the characters still to visit. A character that
  is not a letter ends the call with \<^verbatim>\<open>false\<close>, leaving the lowered prefix in the string.
\<close>

fun lower_loop :: "string \<Rightarrow> string \<Rightarrow> bool \<times> string" where
  "lower_loop seen [] = (True, seen)"
| "lower_loop seen (i # rest) =
     (if \<not> isalpha i then (False, seen @ i # rest)
      else lower_loop (seen @ [tolower i]) rest)"

definition validate :: "string \<Rightarrow> bool \<times> string" where
  "validate word =
     (let word1 = trim_back word;
          word2 = trim_front word1
      in if length word2 \<noteq> 5 then (False, word2) else lower_loop [] word2)"

text \<open>
  What the spec calls trimming, for comparison with the two loops: white space dropped
  from both ends.
\<close>

definition trim :: "string \<Rightarrow> string" where
  "trim word = dropWhile isspace (rev (dropWhile isspace (rev word)))"

section \<open>Constraints and the letter table\<close>

datatype constraint_kind = not_present | present | perfect

text \<open>
  \<^verbatim>\<open>struct constraint\<close>: an aggregate, built by brace initialisation with no check of its
  fields. \<^verbatim>\<open>position\<close> is a \<^verbatim>\<open>std::optional<std::uint8_t>\<close>, the excluded positions are
  \<^verbatim>\<open>int\<close>s.
\<close>

record constraint =
  kind :: constraint_kind
  letter :: char
  position :: "8 word option"
  exclude_positions :: "32 word list"

text \<open>
  \<^verbatim>\<open>struct letter_score\<close>; its field \<^verbatim>\<open>score\<close> is \<open>points\<close> here, \<open>score\<close> being the
  function below.
\<close>

record letter_score =
  points :: int
  letters :: string

definition letter_scores :: "letter_score list" where
  "letter_scores =
    [\<lparr>points = 12000, letters = ''e''\<rparr>,
     \<lparr>points = 9000, letters = ''t''\<rparr>,
     \<lparr>points = 8000, letters = ''ainos''\<rparr>,
     \<lparr>points = 6400, letters = ''h''\<rparr>,
     \<lparr>points = 6200, letters = ''r''\<rparr>,
     \<lparr>points = 4400, letters = ''d''\<rparr>,
     \<lparr>points = 4000, letters = ''l''\<rparr>,
     \<lparr>points = 3400, letters = ''u''\<rparr>,
     \<lparr>points = 3000, letters = ''cm''\<rparr>,
     \<lparr>points = 2500, letters = ''f''\<rparr>,
     \<lparr>points = 2000, letters = ''wy''\<rparr>,
     \<lparr>points = 1700, letters = ''gp''\<rparr>,
     \<lparr>points = 1600, letters = ''b''\<rparr>,
     \<lparr>points = 1200, letters = ''v''\<rparr>,
     \<lparr>points = 800, letters = ''k''\<rparr>,
     \<lparr>points = 500, letters = ''q''\<rparr>,
     \<lparr>points = 400, letters = ''jx''\<rparr>,
     \<lparr>points = 200, letters = ''z''\<rparr>]"

section \<open>score\<close>

text \<open>
  \<^verbatim>\<open>score\<close> copies the word, sorts the copy, erases adjacent duplicates
  (\<^verbatim>\<open>std::unique\<close>, here \<^const>\<open>remdups_adj\<close>) and walks the rest. For each character the
  inner loop adds the points of the first table entry whose letters hold it and breaks.
  \<^const>\<open>sort\<close> orders the bytes unsigned; a platform with a signed \<^verbatim>\<open>char\<close> orders the
  bytes from 128 on first. The score is the same under either order, and under any
  arrangement that leaves no character twice after \<^verbatim>\<open>unique\<close> (lemma
  \<open>score_any_order\<close> below).
\<close>

fun table_loop :: "letter_score list \<Rightarrow> char \<Rightarrow> int \<Rightarrow> int" where
  "table_loop [] c val = val"
| "table_loop (e # es) c val =
     (if c \<in> set (letters e) then val + points e else table_loop es c val)"

fun letter_loop :: "string \<Rightarrow> int \<Rightarrow> int" where
  "letter_loop [] val = val"
| "letter_loop (c # cs) val = letter_loop cs (table_loop letter_scores c val)"

definition score :: "string \<Rightarrow> int" where
  "score word_data = letter_loop (remdups_adj (sort word_data)) 0"

text \<open>
  The spec's \<open>weight_of\<close>: the weight of the letter set that holds the letter, else 0.
\<close>

definition weight_of :: "char \<Rightarrow> int" where
  "weight_of c =
     (case find (\<lambda>e. c \<in> set (letters e)) letter_scores of
        None \<Rightarrow> 0
      | Some e \<Rightarrow> points e)"

section \<open>solve\<close>

text \<open>
  \<^verbatim>\<open>word[pos]\<close> on a \<^verbatim>\<open>const std::string\<close> is unchecked: with \<open>pos\<close> equal to the size it
  yields the terminating null character, beyond the size the read is out of range and
  the behaviour undefined. Dereferencing an empty \<^verbatim>\<open>std::optional\<close> is undefined as
  well. Both are results of the model, so that no such read stays hidden. An \<^verbatim>\<open>int\<close>
  index is converted to \<^verbatim>\<open>size_t\<close>, which sends a negative one far beyond any size.
\<close>

datatype undefined_behaviour = OutOfRangeAccess | EmptyOptionalAccess

definition subscript :: "string \<Rightarrow> int \<Rightarrow> undefined_behaviour + char" where
  "subscript word pos =
     (if 0 \<le> pos \<and> pos < int (length word) then Inr (word ! nat pos)
      else if pos = int (length word) then Inr (CHR 0x00)
      else Inl OutOfRangeAccess)"

text \<open>The loop over \<^verbatim>\<open>exclude_positions\<close>; it reads every position, with no break.\<close>

fun exclude_loop :: "string \<Rightarrow> char \<Rightarrow> 32 word list \<Rightarrow> bool \<Rightarrow> undefined_behaviour + bool" where
  "exclude_loop word l [] fail = Inr fail"
| "exclude_loop word l (exclude_pos # rest) fail =
     (case subscript word (sint exclude_pos) of
        Inl ub \<Rightarrow> Inl ub
      | Inr ch \<Rightarrow> exclude_loop word l rest (if ch = l then True else fail))"

text \<open>The body of the loop over the constraints: the \<^verbatim>\<open>switch\<close> on the kind.\<close>

definition constraint_step :: "string \<Rightarrow> constraint \<Rightarrow> bool \<Rightarrow> undefined_behaviour + bool" where
  "constraint_step word c fail =
     (case kind c of
        not_present \<Rightarrow> Inr (if letter c \<in> set word then True else fail)
      | present \<Rightarrow>
          if letter c \<notin> set word then Inr True
          else exclude_loop word (letter c) (exclude_positions c) fail
      | perfect \<Rightarrow>
          (case position c of
             None \<Rightarrow> Inl EmptyOptionalAccess
           | Some p \<Rightarrow>
               (case subscript word (uint p) of
                  Inl ub \<Rightarrow> Inl ub
                | Inr ch \<Rightarrow> Inr (if ch \<noteq> letter c then True else fail))))"

text \<open>The loop over the constraints runs to the end even once \<open>fail\<close> is set.\<close>

fun constraint_loop :: "string \<Rightarrow> constraint list \<Rightarrow> bool \<Rightarrow> undefined_behaviour + bool" where
  "constraint_loop word [] fail = Inr fail"
| "constraint_loop word (c # cs) fail =
     (case constraint_step word c fail of
        Inl ub \<Rightarrow> Inl ub
      | Inr fail' \<Rightarrow> constraint_loop word cs fail')"

text \<open>The loop over the words, with \<open>legal\<close> the vector built by \<^verbatim>\<open>emplace_back\<close>.\<close>

fun word_loop :: "constraint list \<Rightarrow> string list \<Rightarrow> string list \<Rightarrow> undefined_behaviour + string list" where
  "word_loop cs [] legal = Inr legal"
| "word_loop cs (word # rest) legal =
     (case constraint_loop word cs False of
        Inl ub \<Rightarrow> Inl ub
      | Inr fail \<Rightarrow> word_loop cs rest (if \<not> fail then legal @ [word] else legal))"

definition solve :: "constraint list \<Rightarrow> string list \<Rightarrow> undefined_behaviour + string list" where
  "solve cs words = word_loop cs words []"

text \<open>
  The spec's constraint evaluator, in the spec's words: ABSENT, PRESENT\_ELSEWHERE and
  EXACT are the three kinds of the source.
\<close>

definition satisfies :: "string \<Rightarrow> constraint \<Rightarrow> bool" where
  "satisfies word c =
     (case kind c of
        not_present \<Rightarrow> letter c \<notin> set word
      | present \<Rightarrow>
          letter c \<in> set word \<and>
          (\<forall>i \<in> set (exclude_positions c). word ! nat (sint i) \<noteq> letter c)
      | perfect \<Rightarrow> word ! unat (the (position c)) = letter c)"

definition satisfies_all :: "string \<Rightarrow> constraint list \<Rightarrow> bool" where
  "satisfies_all word cs = (\<forall>c \<in> set cs. satisfies word c)"

text \<open>
  The invariant of the spec's data model: every position a constraint names lies within
  \<open>[0, word_length)\<close>; an EXACT constraint has a position.
\<close>

definition positions_valid :: "nat \<Rightarrow> constraint \<Rightarrow> bool" where
  "positions_valid word_length c =
     (case kind c of
        not_present \<Rightarrow> True
      | present \<Rightarrow>
          (\<forall>i \<in> set (exclude_positions c). 0 \<le> sint i \<and> sint i < int word_length)
      | perfect \<Rightarrow>
          (case position c of None \<Rightarrow> False | Some p \<Rightarrow> unat p < word_length))"

text \<open>
  The reads that \<^const>\<open>constraint_step\<close> makes stay defined: an index up to the size of the
  word, the size included, and a position that is there when the kind is \<open>perfect\<close>.
  The excluded positions are read only when the word holds the letter.
\<close>

definition reads_defined :: "string \<Rightarrow> constraint \<Rightarrow> bool" where
  "reads_defined word c =
     (case kind c of
        not_present \<Rightarrow> True
      | present \<Rightarrow>
          letter c \<in> set word \<longrightarrow>
          (\<forall>i \<in> set (exclude_positions c). 0 \<le> sint i \<and> sint i \<le> int (length word))
      | perfect \<Rightarrow>
          (case position c of None \<Rightarrow> False | Some p \<Rightarrow> unat p \<le> length word))"

text \<open>The constraints that \<^verbatim>\<open>main\<close> hard-codes.\<close>

definition absent :: "char \<Rightarrow> constraint" where
  "absent l = \<lparr>kind = not_present, letter = l, position = None, exclude_positions = []\<rparr>"

definition main_cs :: "constraint list" where
  "main_cs =
    [absent CHR ''s'', absent CHR ''t'', absent CHR ''n'',
     \<lparr>kind = present, letter = CHR ''e'', position = None, exclude_positions = [0, 2, 4]\<rparr>,
     \<lparr>kind = perfect, letter = CHR ''l'', position = Some 4, exclude_positions = []\<rparr>,
     absent CHR ''w'', absent CHR ''h'', absent CHR ''o'', absent CHR ''q'',
     absent CHR ''u'', absent CHR ''a'', absent CHR ''i'']"

section \<open>The pipeline of main\<close>

text \<open>
  The dictionary is an \<^verbatim>\<open>unordered_set\<close> of the dictionary words; the prune loop erases
  from \<open>legal_words\<close> every word the set does not contain.
\<close>

fun prune :: "string set \<Rightarrow> string list \<Rightarrow> string list" where
  "prune dict [] = []"
| "prune dict (w # ws) = (if w \<notin> dict then prune dict ws else w # prune dict ws)"

text \<open>
  \<^verbatim>\<open>std::ranges::sort(legal_words)\<close> orders the \<^verbatim>\<open>string_view\<close>s lexicographically, bytes
  compared unsigned, which is the order of \<open>string\<close> here; then \<^verbatim>\<open>unique\<close> and
  \<^verbatim>\<open>erase\<close> drop adjacent duplicates. The order is linear, so the sorted range is
  the same whatever algorithm the library runs (lemma \<open>ranges_sort_linorder\<close> below).
\<close>

definition sort_unique :: "string list \<Rightarrow> string list" where
  "sort_unique ws = remdups_adj (sort ws)"

text \<open>
  \<open>legal_words\<close> as \<^verbatim>\<open>main\<close> has it before the ranking: the result of \<^verbatim>\<open>solve\<close>,
  pruned by the dictionary, sorted, and freed of duplicates.
\<close>

definition legal_words ::
  "constraint list \<Rightarrow> string list \<Rightarrow> string set \<Rightarrow> undefined_behaviour + string list" where
  "legal_words cs words dict =
     (case solve cs words of
        Inl ub \<Rightarrow> Inl ub
      | Inr found \<Rightarrow> Inr (sort_unique (prune dict found)))"

section \<open>Sorting by letter frequency\<close>

text \<open>
  \<^verbatim>\<open>std::ranges::sort\<close> with a comparator is library code. The C++ standard fixes its
  result only so far: the range afterwards is a permutation of the range before and is
  sorted with respect to \<open>comp\<close>, that is, no element is \<open>comp\<close>-before an earlier one.
  The order of equivalent elements is not specified (the stable algorithm is
  \<^verbatim>\<open>std::ranges::stable_sort\<close>, which the program does not call). The model is therefore
  the relation between the range before and every range the call may leave.
\<close>

definition ranges_sort :: "('a \<Rightarrow> 'a \<Rightarrow> bool) \<Rightarrow> 'a list \<Rightarrow> 'a list \<Rightarrow> bool" where
  "ranges_sort cmp xs ys = (mset ys = mset xs \<and> sorted_wrt (\<lambda>a b. \<not> cmp b a) ys)"

text \<open>
  The comparator has to be a strict weak ordering, or the call is undefined.
\<close>

definition strict_weak_order :: "('a \<Rightarrow> 'a \<Rightarrow> bool) \<Rightarrow> bool" where
  "strict_weak_order cmp =
     ((\<forall>a. \<not> cmp a a) \<and>
      (\<forall>a b c. cmp a b \<longrightarrow> cmp b c \<longrightarrow> cmp a c) \<and>
      (\<forall>a b c. \<not> cmp a b \<longrightarrow> \<not> cmp b a \<longrightarrow> \<not> cmp b c \<longrightarrow> \<not> cmp c b \<longrightarrow>
         \<not> cmp a c \<and> \<not> cmp c a))"

text \<open>
  \<open>letter_freq_words\<close> maps every legal word to its score; \<^verbatim>\<open>emplace\<close> keeps the first
  entry of a key, as \<^const>\<open>map_of\<close> does. \<^verbatim>\<open>operator[]\<close> gives 0 for a key that is
  missing.
\<close>

definition letter_freq_words :: "string list \<Rightarrow> (string \<rightharpoonup> int)" where
  "letter_freq_words legal = map_of (map (\<lambda>w. (w, score w)) legal)"

definition lookup :: "(string \<rightharpoonup> int) \<Rightarrow> string \<Rightarrow> int" where
  "lookup m k = (case m k of None \<Rightarrow> 0 | Some v \<Rightarrow> v)"

definition letter_freq_comp :: "(string \<rightharpoonup> int) \<Rightarrow> string \<Rightarrow> string \<Rightarrow> bool" where
  "letter_freq_comp m l r = (lookup m r < lookup m l)"

definition letter_freq_sort :: "string list \<Rightarrow> string list \<Rightarrow> bool" where
  "letter_freq_sort legal ranked =
     ranges_sort (letter_freq_comp (letter_freq_words legal)) legal ranked"

text \<open>
  What the spec calls a stable order: for each score, the words of that score stand in
  the output in the order they have in the input.
\<close>

definition keeps_tie_order :: "('a \<Rightarrow> int) \<Rightarrow> 'a list \<Rightarrow> 'a list \<Rightarrow> bool" where
  "keeps_tie_order f xs ys =
     (\<forall>k \<in> set (map f xs). filter (\<lambda>x. f x = k) ys = filter (\<lambda>x. f x = k) xs)"

section \<open>The best start word\<close>

text \<open>The lambda that \<^verbatim>\<open>main\<close> hands to \<^verbatim>\<open>std::reduce\<close>.\<close>

definition pick :: "string \<Rightarrow> string \<Rightarrow> string" where
  "pick word1 word2 = (if score word1 > score word2 then word1 else word2)"

text \<open>
  \<^verbatim>\<open>std::reduce\<close> is library code as well. The standard has it return a generalised sum
  of the initial value and the elements: the operation applied over some grouping of
  some permutation of them. The generalised non-commutative sum of a list is the element
  itself for one element, and otherwise the operation applied to the sums of the two
  parts of any split; it is what an implementation computes that groups as it likes but
  keeps the order of the range.
\<close>

inductive gnc_sum :: "('a \<Rightarrow> 'a \<Rightarrow> 'a) \<Rightarrow> 'a list \<Rightarrow> 'a \<Rightarrow> bool" for f where
  single: "gnc_sum f [a] a"
| split: "gnc_sum f xs x \<Longrightarrow> gnc_sum f ys y \<Longrightarrow> gnc_sum f (xs @ ys) (f x y)"

definition generalized_sum :: "('a \<Rightarrow> 'a \<Rightarrow> 'a) \<Rightarrow> 'a list \<Rightarrow> 'a \<Rightarrow> bool" where
  "generalized_sum f xs r = (\<exists>ys. mset ys = mset xs \<and> gnc_sum f ys r)"

definition reduce :: "('a \<Rightarrow> 'a \<Rightarrow> 'a) \<Rightarrow> 'a \<Rightarrow> 'a list \<Rightarrow> 'a \<Rightarrow> bool" where
  "reduce f init xs r = generalized_sum f (init # xs) r"

text \<open>The plain fold from the left is the simplest of these evaluations.\<close>

definition reduce_in_order :: "('a \<Rightarrow> 'a \<Rightarrow> 'a) \<Rightarrow> 'a \<Rightarrow> 'a list \<Rightarrow> 'a" where
  "reduce_in_order f init xs = foldl f init xs"

text \<open>
  \<^verbatim>\<open>words.front()\<close> and \<^verbatim>\<open>words.begin() + 1\<close> are undefined on an empty vector: the
  relation has no outcome there.
\<close>

definition best_word :: "string list \<Rightarrow> string \<Rightarrow> bool" where
  "best_word words r = (words \<noteq> [] \<and> reduce pick (hd words) (tl words) r)"

text \<open>The spec's maximum: no word of the corpus has a greater score.\<close>

definition greatest_score :: "string list \<Rightarrow> string \<Rightarrow> bool" where
  "greatest_score ws w = (\<forall>v \<in> set ws. score v \<le> score w)"

section \<open>Properties of validate\<close>

lemma trim_back_eq: "trim_back word = rev (dropWhile isspace (rev word))"
proof (induction word rule: rev_induct)
  case Nil
  show ?case by (subst trim_back.simps) simp
next
  case (snoc c cs)
  then show ?case by (subst trim_back.simps) simp
qed

lemma trim_front_eq: "trim_front word = dropWhile isspace word"
  by (induction word) auto

lemma lower_loop_eq:
  "lower_loop seen rest =
     (if list_all isalpha rest then (True, seen @ map tolower rest)
      else (False, seen @ map tolower (takeWhile isalpha rest) @ dropWhile isalpha rest))"
  by (induction rest arbitrary: seen) auto

lemma validate_unfold:
  "validate word =
     (if length (trim word) \<noteq> 5 then (False, trim word)
      else if list_all isalpha (trim word) then (True, map tolower (trim word))
      else (False,
            map tolower (takeWhile isalpha (trim word)) @ dropWhile isalpha (trim word)))"
  by (simp add: validate_def trim_def trim_back_eq trim_front_eq lower_loop_eq Let_def)

lemma validate_accepts:
  "validate word = (True, w) \<longleftrightarrow>
     length (trim word) = 5 \<and> list_all isalpha (trim word) \<and> w = map tolower (trim word)"
  by (auto simp: validate_unfold)

lemma isalpha_not_space: "isalpha c \<Longrightarrow> \<not> isspace c"
  by (auto simp: isalpha_def isupper_def islower_def isspace_def Let_def)

lemma tolower_islower: "isalpha c \<Longrightarrow> islower (tolower c)"
  by (auto simp: isalpha_def isupper_def islower_def tolower_def Let_def)

lemma tolower_lower: "islower c \<Longrightarrow> tolower c = c"
  by (auto simp: isupper_def islower_def tolower_def Let_def)

lemma dropWhile_none: "\<forall>c\<in>set w. \<not> P c \<Longrightarrow> dropWhile P w = w"
  by (cases w) auto

lemma trim_no_space: "\<forall>c\<in>set w. \<not> isspace c \<Longrightarrow> trim w = w"
  by (simp add: trim_def dropWhile_none)

text \<open>
  C5, as amended. \<^const>\<open>validate\<close> is not free of effects on its argument: it rewrites the
  caller's string and returns only the flag. The string is left trimmed of white space
  at both ends whatever the flag; accepted, it is the trimmed input in lower case;
  rejected for a character that is not a letter, the letters before that character
  have been put in lower case.
\<close>

theorem validate_in_place:
  "validate word =
     (if length (trim word) \<noteq> 5 then (False, trim word)
      else if list_all isalpha (trim word) then (True, map tolower (trim word))
      else (False,
            map tolower (takeWhile isalpha (trim word)) @ dropWhile isalpha (trim word)))"
  by (rule validate_unfold)

theorem validate_in_place_witness:
  "validate '' Crane  '' = (True, map tolower ''Crane'')"
proof -
  have t: "trim '' Crane  '' = ''Crane''"
    by code_simp
  have a: "list_all isalpha ''Crane''"
    by code_simp
  show ?thesis
    using validate_in_place [of "'' Crane  ''"] by (simp only: t a) simp
qed

text \<open>
  C5 as the spec states it fails: the string after the call differs from the string
  before it, when the word is accepted and when it is rejected.
\<close>

theorem validate_modifies_argument:
  "validate ''Crane '' = (True, ''crane'') \<and> ''crane'' \<noteq> ''Crane '' \<and>
   validate ''Ab1de'' = (False, ''ab1de'') \<and> ''ab1de'' \<noteq> ''Ab1de''"
  by code_simp

text \<open>
  C9. When \<^const>\<open>validate\<close> accepts a raw string and leaves the word \<open>w\<close>, it accepts
  \<open>w\<close> as well and leaves it unchanged.
\<close>

theorem validate_idempotent:
  "validate raw = (True, w) \<Longrightarrow> validate w = (True, w)"
proof -
  assume "validate raw = (True, w)"
  then have len: "length w = 5" and low: "\<forall>c\<in>set w. islower c"
    by (auto simp: validate_accepts list_all_iff tolower_islower)
  from low have "\<forall>c\<in>set w. \<not> isspace c"
    using isalpha_not_space by (auto simp: isalpha_def)
  then have t: "trim w = w"
    by (rule trim_no_space)
  from low have m: "map tolower w = w"
    by (induction w) (auto simp: tolower_lower)
  from low have "list_all isalpha w"
    by (auto simp: list_all_iff isalpha_def)
  with t m len show ?thesis
    by (simp add: validate_accepts)
qed

theorem validate_idempotent_witness:
  "validate ''  Crane'' = (True, ''crane'') \<and> validate ''crane'' = (True, ''crane'')"
proof -
  have h: "validate ''  Crane'' = (True, ''crane'')"
    by code_simp
  from validate_idempotent [OF h] h show ?thesis
    by simp
qed

section \<open>Properties of score\<close>

lemma table_loop_find:
  "table_loop es c val =
     val + (case find (\<lambda>e. c \<in> set (letters e)) es of None \<Rightarrow> 0 | Some e \<Rightarrow> points e)"
  by (induction es) auto

lemma table_loop_weight: "table_loop letter_scores c val = val + weight_of c"
  by (simp only: table_loop_find weight_of_def)

lemma letter_loop_sum: "letter_loop cs val = val + sum_list (map weight_of cs)"
  by (induction cs arbitrary: val)
     (simp_all only: letter_loop.simps table_loop_weight list.map sum_list.Nil sum_list.Cons
        add.assoc add_0_right)

lemma distinct_remdups_adj_sorted:
  "sorted (xs :: 'a :: linorder list) \<Longrightarrow> distinct (remdups_adj xs)"
proof (induction xs rule: remdups_adj.induct)
  case (3 x y xs)
  show ?case
  proof (cases "x = y")
    case True
    with 3 show ?thesis by simp
  next
    case False
    from "3.prems" have "x \<le> y" and "\<forall>z\<in>set xs. y \<le> z" by auto
    with False have "x \<notin> set (y # xs)" by auto
    with False 3 show ?thesis by simp
  qed
qed simp_all

lemma distinct_remdups_adj_sort: "distinct (remdups_adj (sort (xs :: 'a :: linorder list)))"
  by (rule distinct_remdups_adj_sorted) simp

lemma score_sum: "score w = (\<Sum>c\<in>set w. weight_of c)"
proof -
  have "score w = sum_list (map weight_of (remdups_adj (sort w)))"
    by (simp add: score_def letter_loop_sum)
  also have "\<dots> = (\<Sum>c\<in>set (remdups_adj (sort w)). weight_of c)"
    by (rule sum_list_distinct_conv_sum_set) (rule distinct_remdups_adj_sort)
  finally show ?thesis by simp
qed

lemma score_any_order:
  assumes "mset ys = mset w" and "distinct (remdups_adj ys)"
  shows "letter_loop (remdups_adj ys) 0 = score w"
proof -
  from assms(1) have "set ys = set w"
    by (rule mset_eq_setD)
  with sum_list_distinct_conv_sum_set [OF assms(2), of weight_of] show ?thesis
    by (simp add: letter_loop_sum score_sum)
qed

text \<open>
  No letter stands in two entries of the table, so the first entry that holds a letter is
  the only one. The weights are not negative and the whole alphabet sums to 106400: the
  accumulator of \<^const>\<open>letter_loop\<close> only grows and ends within these bounds, far inside
  the range of a 32-bit \<^verbatim>\<open>int\<close>, which is why \<open>int\<close> models it.
\<close>

lemma letter_sets_disjoint: "distinct (concat (map letters letter_scores))"
  by (simp add: letter_scores_def)

lemma weight_of_nonneg: "0 \<le> weight_of c"
  by (simp add: weight_of_def letter_scores_def)

lemma weight_of_outside: "c \<notin> set ''etainoshrdlucmfwygpbvkqjxz'' \<Longrightarrow> weight_of c = 0"
  by (simp add: weight_of_def letter_scores_def)

lemma weight_of_alphabet: "(\<Sum>c\<in>set ''etainoshrdlucmfwygpbvkqjxz''. weight_of c) = 106400"
  by (simp add: weight_of_def letter_scores_def)

lemma letter_loop_mono: "val \<le> letter_loop cs val"
proof -
  have "0 \<le> sum_list (map weight_of cs)"
    by (rule sum_list_nonneg) (auto simp: weight_of_nonneg)
  then show ?thesis
    by (simp add: letter_loop_sum)
qed

lemma score_bounds: "0 \<le> score w \<and> score w \<le> 106400"
proof -
  let ?A = "set ''etainoshrdlucmfwygpbvkqjxz''"
  have "(\<Sum>c\<in>set w. weight_of c) = (\<Sum>c\<in>set w \<inter> ?A. weight_of c)"
    using weight_of_outside by (intro sum.mono_neutral_right) blast+
  also have "\<dots> \<le> (\<Sum>c\<in>?A. weight_of c)"
    by (rule sum_mono2) (auto simp only: weight_of_nonneg finite_set)
  finally have "score w \<le> 106400"
    by (simp only: score_sum weight_of_alphabet)
  moreover have "0 \<le> score w"
    by (simp only: score_sum sum_nonneg weight_of_nonneg)
  ultimately show ?thesis
    by blast
qed

text \<open>
  C7. The score of a word is the sum of the table's weights over the set of its letters.
  So two words with the same letters, in whatever order and however often repeated, have
  the same score, as \<open>aabbc\<close> and \<open>abc\<close> have.
\<close>

theorem score_distinct_letters:
  "score w = (\<Sum>c\<in>set w. weight_of c) \<and>
   (set w = set w' \<longrightarrow> score w = score w') \<and>
   (mset w = mset w' \<longrightarrow> score w = score w') \<and>
   score ''aabbc'' = score ''abc''"
proof -
  have "score w = score w'" if "mset w = mset w'"
  proof -
    from that have "set w = set w'" by (rule mset_eq_setD)
    then show ?thesis by (simp add: score_sum)
  qed
  moreover have "score ''aabbc'' = score ''abc''"
    by (simp add: score_sum)
  ultimately show ?thesis
    by (simp add: score_sum)
qed

theorem score_distinct_letters_witness:
  "set ''eerie'' = set ''ire'' \<and> score ''eerie'' = score ''ire'' \<and> score ''ire'' = 26200"
proof -
  have s: "set ''eerie'' = set ''ire''"
    by auto
  have v: "score ''ire'' = 26200"
    by code_simp
  have "set ''eerie'' = set ''ire'' \<longrightarrow> score ''eerie'' = score ''ire''"
    using score_distinct_letters [of "''eerie''" "''ire''"] by blast
  with s v show ?thesis
    by blast
qed

section \<open>Properties of solve\<close>

lemma uint_le_length: "uint (p :: 'a :: len word) \<le> int n \<longleftrightarrow> unat p \<le> n"
  using of_nat_le_iff [of "unat p" n, where ?'a = int] by simp

lemma uint_less_length: "uint (p :: 'a :: len word) < int n \<longleftrightarrow> unat p < n"
  using of_nat_less_iff [of "unat p" n, where ?'a = int] by simp

lemma subscript_defined:
  "(\<exists>ch. subscript word pos = Inr ch) \<longleftrightarrow> 0 \<le> pos \<and> pos \<le> int (length word)"
  by (auto simp: subscript_def)

lemma subscript_in_range:
  "0 \<le> pos \<Longrightarrow> pos < int (length word) \<Longrightarrow> subscript word pos = Inr (word ! nat pos)"
  by (simp add: subscript_def)

lemma exclude_loop_defined:
  "(\<exists>b. exclude_loop word l ps fail = Inr b) \<longleftrightarrow>
     (\<forall>i\<in>set ps. 0 \<le> sint i \<and> sint i \<le> int (length word))"
proof (induction ps arbitrary: fail)
  case Nil
  show ?case by simp
next
  case (Cons p ps)
  show ?case
  proof (cases "subscript word (sint p)")
    case (Inl ub)
    with subscript_defined [of word "sint p"] show ?thesis by auto
  next
    case (Inr ch)
    with subscript_defined [of word "sint p"] Cons.IH show ?thesis by auto
  qed
qed

lemma exclude_loop_valid:
  "\<forall>i\<in>set ps. 0 \<le> sint i \<and> sint i < int (length word) \<Longrightarrow>
   exclude_loop word l ps fail = Inr (fail \<or> (\<exists>i\<in>set ps. word ! nat (sint i) = l))"
  by (induction ps arbitrary: fail) (auto simp: subscript_in_range)

lemma constraint_step_defined:
  "(\<exists>b. constraint_step word c fail = Inr b) \<longleftrightarrow> reads_defined word c"
proof (cases "kind c")
  case not_present
  then show ?thesis by (simp add: constraint_step_def reads_defined_def)
next
  case present
  then show ?thesis
    by (auto simp: constraint_step_def reads_defined_def exclude_loop_defined)
next
  case perfect
  show ?thesis
  proof (cases "position c")
    case None
    with perfect show ?thesis by (simp add: constraint_step_def reads_defined_def)
  next
    case (Some p)
    show ?thesis
    proof (cases "subscript word (uint p)")
      case (Inl ub)
      with perfect Some subscript_defined [of word "uint p"] show ?thesis
        by (auto simp: constraint_step_def reads_defined_def uint_le_length)
    next
      case (Inr ch)
      with perfect Some subscript_defined [of word "uint p"] show ?thesis
        by (auto simp: constraint_step_def reads_defined_def uint_le_length)
    qed
  qed
qed

lemma constraint_step_valid:
  "positions_valid (length word) c \<Longrightarrow>
   constraint_step word c fail = Inr (fail \<or> \<not> satisfies word c)"
proof (cases "kind c")
  case not_present
  then show ?thesis by (simp add: constraint_step_def satisfies_def)
next
  case present
  assume "positions_valid (length word) c"
  with present have "\<forall>i\<in>set (exclude_positions c). 0 \<le> sint i \<and> sint i < int (length word)"
    by (simp add: positions_valid_def)
  with present show ?thesis
    by (auto simp: constraint_step_def satisfies_def exclude_loop_valid)
next
  case perfect
  assume "positions_valid (length word) c"
  with perfect obtain p where p: "position c = Some p" and "unat p < length word"
    by (auto simp: positions_valid_def split: option.splits)
  then have "subscript word (uint p) = Inr (word ! unat p)"
    using subscript_in_range [of "uint p" word] by (simp add: uint_less_length)
  with perfect p show ?thesis
    by (auto simp: constraint_step_def satisfies_def)
qed

lemma constraint_loop_defined:
  "(\<exists>b. constraint_loop word cs fail = Inr b) \<longleftrightarrow> (\<forall>c\<in>set cs. reads_defined word c)"
proof (induction cs arbitrary: fail)
  case Nil
  show ?case by simp
next
  case (Cons c cs)
  show ?case
  proof (cases "constraint_step word c fail")
    case (Inl ub)
    with constraint_step_defined [of word c fail] show ?thesis by auto
  next
    case (Inr b)
    with constraint_step_defined [of word c fail] Cons.IH [of b] show ?thesis by auto
  qed
qed

lemma constraint_loop_valid:
  "\<forall>c\<in>set cs. positions_valid (length word) c \<Longrightarrow>
   constraint_loop word cs fail = Inr (fail \<or> \<not> satisfies_all word cs)"
  by (induction cs arbitrary: fail) (auto simp: constraint_step_valid satisfies_all_def)

lemma word_loop_result:
  "word_loop cs ws legal = Inr found \<Longrightarrow>
   found = legal @ filter (\<lambda>w. constraint_loop w cs False = Inr False) ws"
proof (induction ws arbitrary: legal)
  case Nil
  then show ?case by simp
next
  case (Cons w ws)
  show ?case
  proof (cases "constraint_loop w cs False")
    case (Inl ub)
    with Cons.prems show ?thesis by simp
  next
    case (Inr b)
    with Cons.prems Cons.IH [of "if \<not> b then legal @ [w] else legal"] show ?thesis
      by (cases b) simp_all
  qed
qed

lemma word_loop_defined:
  "(\<exists>found. word_loop cs ws legal = Inr found) \<longleftrightarrow>
     (\<forall>w\<in>set ws. \<exists>b. constraint_loop w cs False = Inr b)"
proof (induction ws arbitrary: legal)
  case Nil
  show ?case by simp
next
  case (Cons w ws)
  show ?case
  proof (cases "constraint_loop w cs False")
    case (Inl ub)
    then show ?thesis by auto
  next
    case (Inr b)
    with Cons.IH [of "if \<not> b then legal @ [w] else legal"] show ?thesis by auto
  qed
qed

lemma solve_result:
  "solve cs words = Inr found \<Longrightarrow>
   found = filter (\<lambda>w. constraint_loop w cs False = Inr False) words"
  using word_loop_result [of cs words "[]" found] by (simp add: solve_def)

lemma solve_defined:
  "(\<exists>found. solve cs words = Inr found) \<longleftrightarrow> (\<forall>w\<in>set words. \<forall>c\<in>set cs. reads_defined w c)"
  by (simp add: solve_def word_loop_defined constraint_loop_defined)

lemma solve_valid:
  assumes "\<forall>w\<in>set words. \<forall>c\<in>set cs. positions_valid (length w) c"
  shows "solve cs words = Inr (filter (\<lambda>w. satisfies_all w cs) words)"
proof -
  have "positions_valid (length w) c \<Longrightarrow> reads_defined w c" for w c
    by (auto simp: positions_valid_def reads_defined_def split: constraint_kind.splits option.splits)
  with assms have "\<forall>w\<in>set words. \<forall>c\<in>set cs. reads_defined w c" by blast
  then obtain found where f: "solve cs words = Inr found"
    using solve_defined by blast
  have "filter (\<lambda>w. constraint_loop w cs False = Inr False) words = filter (\<lambda>w. satisfies_all w cs) words"
    using assms by (intro filter_cong) (auto simp: constraint_loop_valid)
  with solve_result [OF f] f show ?thesis by simp
qed

lemma solve_empty: "solve [] words = Inr words"
proof -
  have "word_loop [] ws legal = Inr (legal @ ws)" for ws legal
    by (induction ws arbitrary: legal) auto
  then show ?thesis by (simp add: solve_def)
qed

lemma count_list_filter:
  "count_list (filter P xs) w = (if P w then count_list xs w else 0)"
  by (induction xs) auto

text \<open>The scenario of the spec's test section: none of the three words is retained.\<close>

lemma solve_scenario:
  "solve
     [absent CHR ''s'',
      \<lparr>kind = present, letter = CHR ''e'', position = None, exclude_positions = [0, 2, 4]\<rparr>,
      \<lparr>kind = perfect, letter = CHR ''l'', position = Some 4, exclude_positions = []\<rparr>]
     [''eagle'', ''uncle'', ''angle''] = Inr []"
  by code_simp

text \<open>
  C1. On constraints that keep the invariant of the data model (every position within
  the word), \<^const>\<open>solve\<close> returns the words that satisfy every constraint, and only
  those: ABSENT holds when the word lacks the letter, PRESENT\_ELSEWHERE when the word
  holds the letter and none of the excluded positions does, EXACT when the position holds
  the letter.
\<close>

theorem solve_retains_iff_satisfied:
  assumes "\<forall>w\<in>set words. \<forall>c\<in>set cs. positions_valid (length w) c"
  shows "solve cs words = Inr (filter (\<lambda>w. satisfies_all w cs) words)"
  using assms by (rule solve_valid)

theorem solve_retains_iff_satisfied_witness:
  "solve main_cs [''eagle'', ''bevel'', ''uncle'', ''rebel''] = Inr [''bevel'', ''rebel''] \<and>
   filter (\<lambda>w. satisfies_all w main_cs) [''eagle'', ''bevel'', ''uncle'', ''rebel''] =
     [''bevel'', ''rebel'']"
proof -
  have h: "\<forall>w\<in>set [''eagle'', ''bevel'', ''uncle'', ''rebel''].
             \<forall>c\<in>set main_cs. positions_valid (length w) c"
    by (simp add: main_cs_def absent_def positions_valid_def)
  have e: "solve main_cs [''eagle'', ''bevel'', ''uncle'', ''rebel''] = Inr [''bevel'', ''rebel'']"
    by code_simp
  from solve_retains_iff_satisfied [OF h] e show ?thesis
    by simp
qed

text \<open>
  C4, as amended. No error is reported when a constraint is built, and \<^const>\<open>solve\<close>
  reads \<^verbatim>\<open>word[pos]\<close> unchecked. Its reads are all defined exactly when every EXACT
  constraint has a position no greater than the length of each word, and every
  PRESENT\_ELSEWHERE constraint whose letter a word holds has its excluded positions
  between 0 and the length of that word. Constraints that keep the invariant of the data
  model are among these.
\<close>

theorem solve_defined_iff_reads_defined:
  "((\<exists>found. solve cs words = Inr found) \<longleftrightarrow>
      (\<forall>w\<in>set words. \<forall>c\<in>set cs. reads_defined w c)) \<and>
   ((\<forall>w\<in>set words. \<forall>c\<in>set cs. positions_valid (length w) c) \<longrightarrow>
      (\<exists>found. solve cs words = Inr found))"
proof -
  have "\<exists>found. solve cs words = Inr found"
    if "\<forall>w\<in>set words. \<forall>c\<in>set cs. positions_valid (length w) c"
    using solve_valid [OF that] by simp
  then show ?thesis
    using solve_defined [of cs words] by blast
qed

theorem solve_defined_iff_reads_defined_witness:
  "(\<exists>found. solve main_cs [''bevel'', ''eagle''] = Inr found) \<and>
   solve main_cs [''bevel'', ''eagle''] = Inr [''bevel'']"
proof -
  have h: "\<forall>w\<in>set [''bevel'', ''eagle'']. \<forall>c\<in>set main_cs. reads_defined w c"
    by (simp add: main_cs_def absent_def reads_defined_def)
  have e: "solve main_cs [''bevel'', ''eagle''] = Inr [''bevel'']"
    by code_simp
  from solve_defined_iff_reads_defined [of main_cs "[''bevel'', ''eagle'']"] h
  have "\<exists>found. solve main_cs [''bevel'', ''eagle''] = Inr found"
    by blast
  with e show ?thesis
    by blast
qed

text \<open>
  C4 as the spec states it fails: a constraint with a position outside the word is built
  like any other, and \<^const>\<open>solve\<close> reads the word out of range, for an EXACT position
  as for an excluded position.
\<close>

theorem solve_reads_out_of_range:
  "solve [\<lparr>kind = perfect, letter = CHR ''l'', position = Some 7, exclude_positions = []\<rparr>]
     [''bevel''] = Inl OutOfRangeAccess \<and>
   solve [\<lparr>kind = present, letter = CHR ''e'', position = None, exclude_positions = [-1]\<rparr>]
     [''bevel''] = Inl OutOfRangeAccess"
  by code_simp

text \<open>
  C10. What \<^const>\<open>solve\<close> returns is a subsequence of its input: the retained words in
  their input order, none that the input lacks, and every copy of a retained word.
\<close>

theorem solve_subsequence:
  assumes "solve cs words = Inr found"
  shows "subseq found words \<and> set found \<subseteq> set words \<and>
         (\<forall>w\<in>set found. count_list found w = count_list words w)"
proof -
  from solve_result [OF assms] show ?thesis
    by (simp add: count_list_filter)
qed

theorem solve_subsequence_witness:
  "solve main_cs [''bevel'', ''eagle'', ''rebel'', ''bevel''] = Inr [''bevel'', ''rebel'', ''bevel''] \<and>
   subseq [''bevel'', ''rebel'', ''bevel''] [''bevel'', ''eagle'', ''rebel'', ''bevel''] \<and>
   count_list [''bevel'', ''rebel'', ''bevel''] ''bevel'' =
     count_list [''bevel'', ''eagle'', ''rebel'', ''bevel''] ''bevel''"
proof -
  have e: "solve main_cs [''bevel'', ''eagle'', ''rebel'', ''bevel''] =
             Inr [''bevel'', ''rebel'', ''bevel'']"
    by code_simp
  from solve_subsequence [OF e] e show ?thesis
    by simp
qed

section \<open>Properties of the pipeline\<close>

lemma prune_filter: "prune dict ws = filter (\<lambda>w. w \<in> dict) ws"
  by (induction ws) auto

lemma sorted_sort_unique: "sorted (sort_unique ws)"
  by (simp add: sort_unique_def)

lemma distinct_sort_unique: "distinct (sort_unique ws)"
  by (simp add: sort_unique_def distinct_remdups_adj_sort)

lemma set_sort_unique: "set (sort_unique ws) = set ws"
  by (simp add: sort_unique_def)

lemma length_sort_unique: "length (sort_unique ws) = card (set ws)"
  using distinct_card [OF distinct_sort_unique, of ws] by (simp add: set_sort_unique)

lemma legal_words_result:
  "legal_words cs words dict = Inr r \<longleftrightarrow>
     (\<exists>found. solve cs words = Inr found \<and> r = sort_unique (prune dict found))"
  by (cases "solve cs words") (auto simp: legal_words_def)

lemma count_list_distinct: "distinct xs \<Longrightarrow> x \<in> set xs \<Longrightarrow> count_list xs x = 1"
  by (induction xs) (auto simp: count_list_0_iff)

text \<open>
  C6. The filtered candidate list is in lexicographic order and free of duplicates: it
  holds, once each, the words of the corpus that pass the constraints and are in the
  dictionary.
\<close>

theorem legal_words_sorted_distinct:
  assumes "legal_words cs words dict = Inr r"
  shows "sorted r \<and> distinct r \<and>
         set r = {w \<in> set words. w \<in> dict \<and> constraint_loop w cs False = Inr False} \<and>
         (\<forall>w\<in>set r. count_list r w = 1)"
proof -
  from assms obtain found where f: "solve cs words = Inr found"
    and r: "r = sort_unique (prune dict found)"
    by (auto simp: legal_words_result)
  from solve_result [OF f] r
  have "set r = {w \<in> set words. w \<in> dict \<and> constraint_loop w cs False = Inr False}"
    by (auto simp: set_sort_unique prune_filter)
  moreover from r have "sorted r" and d: "distinct r"
    by (simp_all add: sorted_sort_unique distinct_sort_unique)
  moreover from d have "\<forall>w\<in>set r. count_list r w = 1"
    by (simp add: count_list_distinct)
  ultimately show ?thesis
    by blast
qed

theorem legal_words_sorted_distinct_witness:
  "legal_words main_cs [''rebel'', ''eagle'', ''bevel'', ''repel'', ''rebel'']
     (set [''bevel'', ''rebel'', ''eagle'']) = Inr [''bevel'', ''rebel''] \<and>
   sorted [''bevel'', ''rebel''] \<and> distinct [''bevel'', ''rebel''] \<and>
   count_list [''bevel'', ''rebel''] ''rebel'' = 1"
proof -
  have e: "legal_words main_cs [''rebel'', ''eagle'', ''bevel'', ''repel'', ''rebel'']
             (set [''bevel'', ''rebel'', ''eagle'']) = Inr [''bevel'', ''rebel'']"
    by code_simp
  from legal_words_sorted_distinct [OF e] e show ?thesis
    by simp
qed

text \<open>
  C8. With no constraint \<^const>\<open>solve\<close> returns the word list as it is, and the candidate
  list under any constraints is no longer than the candidate list under none.
\<close>

theorem legal_words_monotone:
  "solve [] words = Inr words \<and>
   (legal_words cs words dict = Inr r \<longrightarrow>
      (\<exists>r0. legal_words [] words dict = Inr r0 \<and> length r \<le> length r0))"
proof -
  have "\<exists>r0. legal_words [] words dict = Inr r0 \<and> length r \<le> length r0"
    if "legal_words cs words dict = Inr r"
  proof -
    from that obtain found where f: "solve cs words = Inr found"
      and r: "r = sort_unique (prune dict found)"
      by (auto simp: legal_words_result)
    from solve_result [OF f] have "set (prune dict found) \<subseteq> set (prune dict words)"
      by (auto simp: prune_filter)
    then have "card (set (prune dict found)) \<le> card (set (prune dict words))"
      by (intro card_mono) simp_all
    with r have "length r \<le> length (sort_unique (prune dict words))"
      by (simp add: length_sort_unique)
    moreover have "legal_words [] words dict = Inr (sort_unique (prune dict words))"
      by (simp add: legal_words_def solve_empty)
    ultimately show ?thesis
      by blast
  qed
  then show ?thesis
    by (simp add: solve_empty)
qed

theorem legal_words_monotone_witness:
  "legal_words main_cs [''rebel'', ''eagle'', ''bevel'', ''rebel''] (set [''bevel'', ''rebel'', ''eagle'']) =
     Inr [''bevel'', ''rebel''] \<and>
   legal_words [] [''rebel'', ''eagle'', ''bevel'', ''rebel''] (set [''bevel'', ''rebel'', ''eagle'']) =
     Inr [''bevel'', ''eagle'', ''rebel''] \<and>
   length [''bevel'', ''rebel''] \<le> length [''bevel'', ''eagle'', ''rebel'']"
proof -
  have e: "legal_words main_cs [''rebel'', ''eagle'', ''bevel'', ''rebel'']
             (set [''bevel'', ''rebel'', ''eagle'']) = Inr [''bevel'', ''rebel'']"
    by code_simp
  have e0: "legal_words [] [''rebel'', ''eagle'', ''bevel'', ''rebel'']
              (set [''bevel'', ''rebel'', ''eagle'']) = Inr [''bevel'', ''eagle'', ''rebel'']"
    by code_simp
  from legal_words_monotone [of "[''rebel'', ''eagle'', ''bevel'', ''rebel'']" main_cs
      "set [''bevel'', ''rebel'', ''eagle'']" "[''bevel'', ''rebel'']"] e e0
  show ?thesis
    by simp
qed

section \<open>Properties of the sort by letter frequency\<close>

lemma lookup_letter_freq_words:
  "w \<in> set legal \<Longrightarrow> lookup (letter_freq_words legal) w = score w"
  by (induction legal) (auto simp: lookup_def letter_freq_words_def)

lemma strict_weak_order_letter_freq_comp: "strict_weak_order (letter_freq_comp m)"
  by (auto simp: strict_weak_order_def letter_freq_comp_def)

lemma ranges_sort_linorder:
  "ranges_sort (<) xs ys \<longleftrightarrow> ys = sort (xs :: 'a :: linorder list)"
proof
  assume "ranges_sort (<) xs ys"
  then have "mset ys = mset xs" and "sorted ys"
    by (simp_all add: ranges_sort_def not_less)
  then show "ys = sort xs"
    by (simp add: properties_for_sort)
next
  assume "ys = sort xs"
  then show "ranges_sort (<) xs ys"
    by (simp add: ranges_sort_def not_less)
qed

lemma letter_freq_sort_iff:
  "letter_freq_sort legal ranked \<longleftrightarrow>
     mset ranked = mset legal \<and> sorted_wrt (\<lambda>a b. score b \<le> score a) ranked"
proof -
  have "sorted_wrt (\<lambda>a b. \<not> letter_freq_comp (letter_freq_words legal) b a) ranked \<longleftrightarrow>
        sorted_wrt (\<lambda>a b. score b \<le> score a) ranked"
    if "mset ranked = mset legal"
  proof -
    from that have "set ranked = set legal"
      by (rule mset_eq_setD)
    then have "\<not> letter_freq_comp (letter_freq_words legal) b a \<longleftrightarrow> score b \<le> score a"
      if "a \<in> set ranked" and "b \<in> set ranked" for a b
      using that by (simp add: letter_freq_comp_def lookup_letter_freq_words not_less)
    then show ?thesis
      by (auto elim!: sorted_wrt_mono_rel [rotated])
  qed
  then show ?thesis
    by (auto simp: letter_freq_sort_def ranges_sort_def)
qed

lemma letter_freq_sort_exists:
  "letter_freq_sort legal (sort_key (\<lambda>w. - score w) legal)"
proof -
  have "sorted (map (\<lambda>w. - score w) (sort_key (\<lambda>w. - score w) legal))"
    by simp
  then have "sorted_wrt (\<lambda>a b. score b \<le> score a) (sort_key (\<lambda>w. - score w) legal)"
    by (simp add: sorted_map)
  then show ?thesis
    by (simp add: letter_freq_sort_iff)
qed

lemma stable_sort_keeps_tie_order:
  "keeps_tie_order score legal (sort_key (\<lambda>w. - score w) legal)"
proof -
  have "filter (\<lambda>w. score w = k) (sort_key (\<lambda>w. - score w) legal) =
        filter (\<lambda>w. score w = k) legal" for k
    using sort_key_stable [of "\<lambda>w. - score w" "- k" legal] by simp
  then show ?thesis
    by (simp add: keeps_tie_order_def)
qed

text \<open>
  C3, as amended. The comparator is a strict weak ordering, so the sort is defined and
  leaves some range; every range it may leave is a permutation of the candidates and
  non-increasing in score. The order of candidates of equal score is not fixed by the
  code.
\<close>

theorem letter_freq_sort_permutation_descending:
  "strict_weak_order (letter_freq_comp (letter_freq_words legal)) \<and>
   (\<exists>ranked. letter_freq_sort legal ranked) \<and>
   (letter_freq_sort legal ranked \<longrightarrow>
      mset ranked = mset legal \<and> sorted_wrt (\<lambda>a b. score b \<le> score a) ranked)"
proof -
  have "\<exists>ranked. letter_freq_sort legal ranked"
    using letter_freq_sort_exists [of legal] by blast
  then show ?thesis
    by (simp add: strict_weak_order_letter_freq_comp letter_freq_sort_iff)
qed

theorem letter_freq_sort_permutation_descending_witness:
  "letter_freq_sort [''bevel'', ''rebel'', ''repel''] [''repel'', ''rebel'', ''bevel''] \<and>
   mset [''repel'', ''rebel'', ''bevel''] = mset [''bevel'', ''rebel'', ''repel''] \<and>
   sorted_wrt (\<lambda>a b. score b \<le> score a) [''repel'', ''rebel'', ''bevel'']"
proof -
  have s: "score ''bevel'' = 18800" "score ''rebel'' = 23800" "score ''repel'' = 23900"
    by code_simp+
  have h: "letter_freq_sort [''bevel'', ''rebel'', ''repel''] [''repel'', ''rebel'', ''bevel'']"
    by (simp add: letter_freq_sort_def ranges_sort_def letter_freq_comp_def lookup_def
        letter_freq_words_def s)
  from letter_freq_sort_permutation_descending
    [of "[''bevel'', ''rebel'', ''repel'']" "[''repel'', ''rebel'', ''bevel'']"] h
  show ?thesis
    by blast
qed

text \<open>
  C3 as the spec states it fails: \<^verbatim>\<open>std::ranges::sort\<close> is not a stable sort. Two
  candidates of equal score may come out in the order opposite to their input order.
\<close>

theorem letter_freq_sort_not_stable:
  "letter_freq_sort [''least'', ''slate''] [''slate'', ''least''] \<and>
   score ''least'' = score ''slate'' \<and>
   \<not> keeps_tie_order score [''least'', ''slate''] [''slate'', ''least'']"
proof -
  have s: "score ''least'' = 41000" "score ''slate'' = 41000"
    by code_simp+
  show ?thesis
    by (simp add: letter_freq_sort_def ranges_sort_def letter_freq_comp_def lookup_def
        letter_freq_words_def keeps_tie_order_def s)
qed

section \<open>Properties of the best start word\<close>

lemma pick_cases: "pick x y = x \<or> pick x y = y"
  by (simp add: pick_def)

lemma score_pick: "score x \<le> score (pick x y) \<and> score y \<le> score (pick x y)"
  by (simp add: pick_def)

lemma gnc_sum_pick_max:
  "gnc_sum pick bs r \<Longrightarrow> r \<in> set bs \<and> greatest_score bs r"
proof (induction rule: gnc_sum.induct)
  case (single a)
  show ?case by (simp add: greatest_score_def)
next
  case (split xs x ys y)
  have "pick x y \<in> set (xs @ ys)"
    using split.IH pick_cases [of x y] by auto
  moreover have "greatest_score (xs @ ys) (pick x y)"
    using split.IH score_pick [of x y] unfolding greatest_score_def by fastforce
  ultimately show ?case
    by blast
qed

lemma gnc_sum_foldl: "gnc_sum f (a # xs) (foldl f a xs)"
proof (induction xs rule: rev_induct)
  case Nil
  show ?case by (simp add: gnc_sum.single)
next
  case (snoc x xs)
  from gnc_sum.split [OF snoc.IH gnc_sum.single [of f x]] show ?case
    by simp
qed

lemma reduce_in_order_outcome: "reduce f init xs (reduce_in_order f init xs)"
  unfolding reduce_def generalized_sum_def reduce_in_order_def
  using gnc_sum_foldl [of f init xs] by blast

lemma reduce_pick_max:
  assumes "reduce pick init xs r"
  shows "r \<in> set (init # xs) \<and> greatest_score (init # xs) r"
proof -
  from assms obtain ys where m: "mset ys = mset (init # xs)" and g: "gnc_sum pick ys r"
    by (auto simp: reduce_def generalized_sum_def)
  from m have "set ys = set (init # xs)"
    by (rule mset_eq_setD)
  with gnc_sum_pick_max [OF g] show ?thesis
    by (simp add: greatest_score_def)
qed

text \<open>
  Whatever the grouping, as long as the order of the words is kept: \<^const>\<open>pick\<close> returns
  its second argument when the scores are equal, so the last word of greatest score wins.
\<close>

lemma gnc_sum_pick_last:
  "gnc_sum pick bs r \<Longrightarrow> r = last (filter (greatest_score bs) bs)"
proof (induction rule: gnc_sum.induct)
  case (single a)
  show ?case by (simp add: greatest_score_def)
next
  case (split xs x ys y)
  from gnc_sum_pick_max [OF split.hyps(1)]
  have x_in: "x \<in> set xs" and x_top: "greatest_score xs x"
    by simp_all
  from gnc_sum_pick_max [OF split.hyps(2)]
  have y_in: "y \<in> set ys" and y_top: "greatest_score ys y"
    by simp_all
  have top_app: "greatest_score (xs @ ys) w \<longleftrightarrow> greatest_score xs w \<and> greatest_score ys w"
    for w
    by (auto simp: greatest_score_def)
  show ?case
  proof (cases "score y < score x")
    case True
    have "filter (greatest_score (xs @ ys)) ys = []"
    proof -
      have "\<not> greatest_score (xs @ ys) w" if "w \<in> set ys" for w
      proof
        assume "greatest_score (xs @ ys) w"
        with x_in have "score x \<le> score w"
          by (auto simp: greatest_score_def)
        moreover from y_top that have "score w \<le> score y"
          by (auto simp: greatest_score_def)
        ultimately show False
          using True by simp
      qed
      then show ?thesis
        by (simp add: filter_empty_conv)
    qed
    moreover have "filter (greatest_score (xs @ ys)) xs = filter (greatest_score xs) xs"
    proof (rule filter_cong [OF refl])
      fix w
      assume "w \<in> set xs"
      show "greatest_score (xs @ ys) w \<longleftrightarrow> greatest_score xs w"
      proof
        assume "greatest_score (xs @ ys) w"
        then show "greatest_score xs w"
          by (simp only: top_app)
      next
        assume t: "greatest_score xs w"
        with x_in have "score x \<le> score w"
          by (auto simp: greatest_score_def)
        with y_top True have "greatest_score ys w"
          by (fastforce simp: greatest_score_def)
        with t show "greatest_score (xs @ ys) w"
          by (simp only: top_app)
      qed
    qed
    moreover from True have "pick x y = x"
      by (simp add: pick_def)
    ultimately show ?thesis
      using split.IH(1) by simp
  next
    case False
    have "filter (greatest_score (xs @ ys)) ys = filter (greatest_score ys) ys"
    proof (rule filter_cong [OF refl])
      fix w
      assume "w \<in> set ys"
      show "greatest_score (xs @ ys) w \<longleftrightarrow> greatest_score ys w"
      proof
        assume "greatest_score (xs @ ys) w"
        then show "greatest_score ys w"
          by (simp only: top_app)
      next
        assume t: "greatest_score ys w"
        with y_in have "score y \<le> score w"
          by (auto simp: greatest_score_def)
        with x_top False have "greatest_score xs w"
          by (fastforce simp: greatest_score_def)
        with t show "greatest_score (xs @ ys) w"
          by (simp only: top_app)
      qed
    qed
    moreover from y_in y_top have "filter (greatest_score ys) ys \<noteq> []"
      by (auto simp: filter_empty_conv)
    moreover from False have "pick x y = y"
      by (simp add: pick_def)
    ultimately show ?thesis
      using split.IH(2) by simp
  qed
qed

text \<open>
  C2, as amended. On a corpus that is not empty the reduction has an outcome, and every
  outcome is a word of the corpus whose score is the greatest of the whole corpus. When
  several words have that score the first one is not what the code picks: \<open>pick\<close>
  returns its second argument on a tie, so every evaluation that keeps the order of the
  corpus, the fold from the left among them, returns the last word of greatest score.
\<close>

theorem best_word_greatest_score:
  assumes "words \<noteq> []"
  shows "(\<exists>r. best_word words r) \<and>
         (\<forall>r. best_word words r \<longrightarrow> r \<in> set words \<and> greatest_score words r) \<and>
         (\<forall>r. gnc_sum pick words r \<longrightarrow> r = last (filter (greatest_score words) words)) \<and>
         gnc_sum pick words (reduce_in_order pick (hd words) (tl words))"
proof -
  from assms have w: "hd words # tl words = words"
    by simp
  have "best_word words (reduce_in_order pick (hd words) (tl words))"
    using assms by (simp add: best_word_def reduce_in_order_outcome)
  then have "\<exists>r. best_word words r"
    by blast
  moreover have "r \<in> set words \<and> greatest_score words r" if "best_word words r" for r
    using reduce_pick_max [of "hd words" "tl words" r] that w by (simp add: best_word_def)
  moreover have "gnc_sum pick words (reduce_in_order pick (hd words) (tl words))"
    using gnc_sum_foldl [of pick "hd words" "tl words"] w
    by (simp only: reduce_in_order_def)
  ultimately show ?thesis
    using gnc_sum_pick_last [of words] by blast
qed

theorem best_word_greatest_score_witness:
  "best_word [''least'', ''bevel'', ''slate'', ''rebel''] ''slate'' \<and>
   reduce_in_order pick ''least'' [''bevel'', ''slate'', ''rebel''] = ''slate'' \<and>
   ''slate'' = last (filter (greatest_score [''least'', ''bevel'', ''slate'', ''rebel''])
     [''least'', ''bevel'', ''slate'', ''rebel''])"
proof -
  have n: "[''least'', ''bevel'', ''slate'', ''rebel''] \<noteq> []"
    by simp
  have e: "reduce_in_order pick ''least'' [''bevel'', ''slate'', ''rebel''] = ''slate''"
    by code_simp
  have b: "best_word [''least'', ''bevel'', ''slate'', ''rebel''] ''slate''"
    using reduce_in_order_outcome [of pick "''least''" "[''bevel'', ''slate'', ''rebel'']"] e
    by (simp add: best_word_def)
  from best_word_greatest_score [OF n] e
  have "gnc_sum pick [''least'', ''bevel'', ''slate'', ''rebel''] ''slate''"
    and "\<forall>r. gnc_sum pick [''least'', ''bevel'', ''slate'', ''rebel''] r \<longrightarrow>
           r = last (filter (greatest_score [''least'', ''bevel'', ''slate'', ''rebel''])
             [''least'', ''bevel'', ''slate'', ''rebel''])"
    by simp_all
  then have "''slate'' = last (filter (greatest_score [''least'', ''bevel'', ''slate'', ''rebel''])
     [''least'', ''bevel'', ''slate'', ''rebel''])"
    by blast
  with b e show ?thesis
    by blast
qed

text \<open>
  C2 as the spec states it fails: of two words of the same, greatest score the reduction
  returns the second.
\<close>

theorem best_word_tie_returns_later:
  "reduce_in_order pick ''least'' [''slate''] = ''slate'' \<and>
   best_word [''least'', ''slate''] ''slate'' \<and>
   greatest_score [''least'', ''slate''] ''least'' \<and> ''slate'' \<noteq> ''least''"
proof -
  have e: "reduce_in_order pick ''least'' [''slate''] = ''slate''"
    by code_simp
  have s: "score ''least'' = score ''slate''"
    by code_simp
  have "best_word [''least'', ''slate''] (reduce_in_order pick ''least'' [''slate''])"
    by (simp add: best_word_def reduce_in_order_outcome)
  with e s show ?thesis
    by (simp add: greatest_score_def)
qed

end
